theory Spec2Isabelle
  imports Main "HOL-Library.Word"
begin

section \<open>Events\<close>

text \<open>
  \<^verbatim>\<open>internal/core\<close>: the event record shared by every component. \<open>Seq\<close> is a Go
  \<open>uint64\<close>; the timestamp is carried as an opaque integer, no claim reads it.
\<close>

datatype SourceKind = SourceStdin | SourceFile | SourceDocker

datatype Severity = SevUnknown | SevDebug | SevInfo | SevWarn | SevError

record LogEvent =
  Seq :: "64 word"
  Time :: int
  Source :: SourceKind
  Container :: string
  Line :: string
  LevelStr :: string
  Level :: Severity

text \<open>Go's zero value \<open>LogEvent{}\<close>.\<close>

definition zero_event :: LogEvent where
  "zero_event = \<lparr>Seq = 0, Time = 0, Source = SourceStdin, Container = [], Line = [],
                  LevelStr = [], Level = SevUnknown\<rparr>"

section \<open>Ring buffer\<close>

text \<open>
  \<open>type Ring struct { cap int; buf []LogEvent; head int; size int; seq uint64 }\<close>.
  The fields carry the prefix \<open>r_\<close>. The three \<open>int\<close> fields are natural numbers here:
  the code never makes them negative and keeps them at most \<open>cap\<close>, the length of an
  allocated slice, so the 64-bit signed range is never left. The counter \<open>seq\<close> is a
  64-bit word and wraps as Go's \<open>uint64\<close> does.
  A run-time panic (index or slice bound out of range, division by zero) is the
  result \<open>None\<close>.
\<close>

record Ring =
  r_cap :: nat
  r_buf :: "LogEvent list"
  r_head :: nat
  r_size :: nat
  r_seq :: "64 word"

definition NewRing :: "int \<Rightarrow> Ring" where
  "NewRing c =
     (let c' = (if c \<le> 0 then 10000 else nat c)
      in \<lparr>r_cap = c', r_buf = replicate c' zero_event, r_head = 0, r_size = 0, r_seq = 0\<rparr>)"

definition Append :: "Ring \<Rightarrow> LogEvent \<Rightarrow> (Ring \<times> LogEvent) option" where
  "Append r e =
     (let s = r_seq r + 1;
          e' = e\<lparr>Seq := s\<rparr>
      in if length (r_buf r) \<le> r_head r then None
         else if r_cap r = 0 then None
         else Some (r\<lparr>r_seq := s,
                       r_buf := (r_buf r)[r_head r := e'],
                       r_head := (r_head r + 1) mod r_cap r,
                       r_size := (if r_size r < r_cap r then r_size r + 1 else r_size r)\<rparr>,
                    e'))"

text \<open>Go's builtin \<open>copy(dst, src)\<close>: overwrites the first \<open>min(len(dst), len(src))\<close>
  elements of \<open>dst\<close>.\<close>

definition copy_go :: "'a list \<Rightarrow> 'a list \<Rightarrow> 'a list" where
  "copy_go dst src = (let n = min (length dst) (length src) in take n src @ drop n dst)"

definition Snapshot :: "Ring \<Rightarrow> LogEvent list option" where
  "Snapshot r =
     (if r_size r = 0 then Some []
      else
        let result = replicate (r_size r) zero_event in
        if r_size r < r_cap r then
          (if length (r_buf r) < r_size r then None
           else Some (copy_go result (take (r_size r) (r_buf r))))
        else
          let oldestIdx = r_head r in
          if length (r_buf r) < oldestIdx then None
          else
            let result1 = copy_go result (drop oldestIdx (r_buf r)) in
            if 0 < oldestIdx then
              (if r_cap r < oldestIdx \<or> length result1 < r_cap r - oldestIdx then None
               else Some (take (r_cap r - oldestIdx) result1 @
                          copy_go (drop (r_cap r - oldestIdx) result1)
                                  (take oldestIdx (r_buf r))))
            else Some result1)"

definition GetBySeq :: "Ring \<Rightarrow> 64 word \<Rightarrow> (LogEvent \<times> bool) option" where
  "GetBySeq r s =
     (if r_size r = 0 \<or> s = 0 then Some (zero_event, False)
      else
        let oldestSeq = r_seq r - of_nat (r_size r) + 1 in
        if s < oldestSeq \<or> r_seq r < s then Some (zero_event, False)
        else if \<not> r_size r < r_cap r \<and> r_cap r = 0 then None
        else
          let idx = (if r_size r < r_cap r then unat (s - oldestSeq)
                     else (r_head r + unat (s - oldestSeq)) mod r_cap r) in
          if length (r_buf r) \<le> idx then None
          else
            let event = r_buf r ! idx in
            if Seq event = s then Some (event, True) else Some (zero_event, False))"

definition Capacity :: "Ring \<Rightarrow> nat" where
  "Capacity r = r_cap r"

definition Size :: "Ring \<Rightarrow> nat" where
  "Size r = r_size r"

definition CurrentSeq :: "Ring \<Rightarrow> 64 word" where
  "CurrentSeq r = r_seq r"

definition OldestSeq :: "Ring \<Rightarrow> 64 word" where
  "OldestSeq r = (if r_size r = 0 then 0 else r_seq r - of_nat (r_size r) + 1)"

text \<open>Appending a list of events one after the other, collecting what \<open>Append\<close> returns.\<close>

fun append_all :: "Ring \<Rightarrow> LogEvent list \<Rightarrow> (Ring \<times> LogEvent list) option" where
  "append_all r [] = Some (r, [])"
| "append_all r (e # es) =
     (case Append r e of
        None \<Rightarrow> None
      | Some (r', e') \<Rightarrow>
          (case append_all r' es of
             None \<Rightarrow> None
           | Some (r'', out) \<Rightarrow> Some (r'', e' # out)))"

text \<open>
  What a ring of capacity \<open>c\<close> looks like after the events \<open>out\<close> (as returned by
  \<open>Append\<close>, oldest first) have gone in: the counter, the size and the write position
  are functions of \<open>length out\<close>, and the last \<open>c\<close> events sit at their index modulo
  \<open>c\<close>.
\<close>

definition ring_holds :: "nat \<Rightarrow> LogEvent list \<Rightarrow> Ring \<Rightarrow> bool" where
  "ring_holds c out r \<longleftrightarrow>
     0 < c \<and> r_cap r = c \<and> length (r_buf r) = c \<and>
     r_seq r = of_nat (length out) \<and>
     r_size r = min (length out) c \<and>
     r_head r = length out mod c \<and>
     (\<forall>k < length out. length out \<le> k + c \<longrightarrow> r_buf r ! (k mod c) = out ! k) \<and>
     (\<forall>k < length out. Seq (out ! k) = of_nat (k + 1))"

text \<open>A test fixture: the event literal \<open>LogEvent{Line: l, Level: v}\<close>.\<close>

definition mk_event :: "string \<Rightarrow> Severity \<Rightarrow> LogEvent" where
  "mk_event l v = zero_event\<lparr>Line := l, Level := v\<rparr>"

section \<open>Text matchers and the find index\<close>

text \<open>
  \<open>type TextMatcher struct { raw string; isRegex bool; pattern *regexp.Regexp; lowered string }\<close>.
  The compiled regular expression is represented by its \<open>MatchString\<close> function; the
  regular-expression engine itself is a parameter of the model. \<open>NewMatcher\<close> leaves the
  field \<open>nil\<close> exactly when \<open>isRegex\<close> is false, where \<open>Match\<close> never consults it.
\<close>

record TextMatcher =
  raw :: string
  isRegex :: bool
  pattern :: "string \<Rightarrow> bool"
  lowered :: string

text \<open>
  \<open>type FindIndex struct { matcher TextMatcher; matches []uint64; current int; maxCap int }\<close>.
  \<open>current\<close> and \<open>maxCap\<close> are Go \<open>int\<close>s that can be negative (\<open>current\<close> is \<open>-1\<close> when
  no match is selected); their magnitude is bounded by the length of \<open>matches\<close>, so
  unbounded integers model them exactly.
\<close>

record FindIndex =
  matcher :: TextMatcher
  matches :: "64 word list"
  current :: int
  maxCap :: int

definition NewFindIndex :: "int \<Rightarrow> FindIndex" where
  "NewFindIndex maxCapacity =
     \<lparr>matcher = \<lparr>raw = [], isRegex = False, pattern = (\<lambda>_. False), lowered = []\<rparr>,
      matches = [], current = -1, maxCap = maxCapacity\<rparr>"

definition SetMatcher :: "FindIndex \<Rightarrow> TextMatcher \<Rightarrow> FindIndex" where
  "SetMatcher fi m = fi\<lparr>matcher := m, matches := [], current := -1\<rparr>"

text \<open>
  Go's \<open>sort.Search(n, f)\<close>, the standard library's binary search:
  \<^verbatim>\<open>i, j := 0, n; for i < j { h := int(uint(i+j) >> 1); if !f(h) { i = h + 1 } else { j = h } }; return i\<close>
\<close>

function sort_Search_loop :: "nat \<Rightarrow> nat \<Rightarrow> (nat \<Rightarrow> bool) \<Rightarrow> nat" where
  "sort_Search_loop i j f =
     (if i < j then
        (let h = (i + j) div 2
         in if \<not> f h then sort_Search_loop (h + 1) j f else sort_Search_loop i h f)
      else i)"
  by pat_completeness auto
termination
  by (relation "measure (\<lambda>(i, j, f). j - i)") auto

declare sort_Search_loop.simps [simp del]

definition sort_Search :: "nat \<Rightarrow> (nat \<Rightarrow> bool) \<Rightarrow> nat" where
  "sort_Search n f = sort_Search_loop 0 n f"

text \<open>
  The cursor adjustment shared by \<open>AddMatch\<close> and \<open>RemoveOldMatches\<close>:
  \<^verbatim>\<open>if fi.current >= 0 { fi.current -= k; if fi.current < 0 { fi.current = -1 } }\<close>
\<close>

definition adjust_current :: "int \<Rightarrow> nat \<Rightarrow> int" where
  "adjust_current cur k =
     (if 0 \<le> cur then (let c = cur - int k in if c < 0 then -1 else c) else cur)"

text \<open>
  The insertion block of \<open>AddMatch\<close>:
  \<^verbatim>\<open>fi.matches = append(fi.matches, 0); copy(fi.matches[pos+1:], fi.matches[pos:]); fi.matches[pos] = seq\<close>
\<close>

definition insert_at :: "64 word list \<Rightarrow> nat \<Rightarrow> 64 word \<Rightarrow> 64 word list" where
  "insert_at ms pos seq =
     (let ms1 = ms @ [0];
          ms2 = take (pos + 1) ms1 @ copy_go (drop (pos + 1) ms1) (drop pos ms1)
      in ms2[pos := seq])"

text \<open>
  The removal block shared by \<open>AddMatch\<close> and \<open>RemoveOldMatches\<close>:
  \<^verbatim>\<open>copy(fi.matches, fi.matches[k:]); fi.matches = fi.matches[:n]\<close>
\<close>

definition remove_front :: "64 word list \<Rightarrow> nat \<Rightarrow> nat \<Rightarrow> 64 word list" where
  "remove_front ms k n = take n (copy_go ms (drop k ms))"

text \<open>\<open>AddMatch\<close> panics (\<open>None\<close>, slice bounds out of range) when the list outgrows
  a negative \<open>maxCap\<close>.\<close>

definition AddMatch :: "FindIndex \<Rightarrow> 64 word \<Rightarrow> FindIndex option" where
  "AddMatch fi seq =
     (let ms = matches fi;
          pos = sort_Search (length ms) (\<lambda>i. seq \<le> ms ! i)
      in if pos < length ms \<and> ms ! pos = seq then Some fi
         else
           let ms' = insert_at ms pos seq
           in if maxCap fi < int (length ms') then
                (if maxCap fi < 0 then None
                 else
                   let removeCount = length ms' - nat (maxCap fi)
                   in Some (fi\<lparr>matches := remove_front ms' removeCount (nat (maxCap fi)),
                                current := adjust_current (current fi) removeCount\<rparr>))
              else Some (fi\<lparr>matches := ms'\<rparr>))"

definition RemoveOldMatches :: "FindIndex \<Rightarrow> 64 word \<Rightarrow> FindIndex" where
  "RemoveOldMatches fi oldestSeq =
     (let ms = matches fi;
          cutoff = sort_Search (length ms) (\<lambda>i. oldestSeq \<le> ms ! i)
      in if 0 < cutoff then
           fi\<lparr>matches := remove_front ms cutoff (length ms - cutoff),
              current := adjust_current (current fi) cutoff\<rparr>
         else fi)"

text \<open>\<open>Next\<close> and \<open>Prev\<close> return the updated index and the sequence number; \<open>None\<close> is an
  index-out-of-range panic on \<open>fi.matches[fi.current]\<close>.\<close>

definition Next :: "FindIndex \<Rightarrow> (FindIndex \<times> 64 word) option" where
  "Next fi =
     (if length (matches fi) = 0 then Some (fi, 0)
      else if current fi < int (length (matches fi)) - 1 then
        (let c = current fi + 1
         in if c < 0 then None
            else Some (fi\<lparr>current := c\<rparr>, matches fi ! nat c))
      else Some (fi\<lparr>current := 0\<rparr>, matches fi ! 0))"

definition Prev :: "FindIndex \<Rightarrow> (FindIndex \<times> 64 word) option" where
  "Prev fi =
     (if length (matches fi) = 0 then Some (fi, 0)
      else if 0 < current fi then
        (let c = current fi - 1
         in if int (length (matches fi)) \<le> c then None
            else Some (fi\<lparr>current := c\<rparr>, matches fi ! nat c))
      else Some (fi\<lparr>current := int (length (matches fi)) - 1\<rparr>,
                 matches fi ! (length (matches fi) - 1)))"

definition Current :: "FindIndex \<Rightarrow> 64 word" where
  "Current fi =
     (if 0 \<le> current fi \<and> current fi < int (length (matches fi))
      then matches fi ! nat (current fi) else 0)"

definition SetCurrentBySeq :: "FindIndex \<Rightarrow> 64 word \<Rightarrow> FindIndex \<times> bool" where
  "SetCurrentBySeq fi seq =
     (let ms = matches fi;
          pos = sort_Search (length ms) (\<lambda>i. seq \<le> ms ! i)
      in if pos < length ms \<and> ms ! pos = seq then (fi\<lparr>current := int pos\<rparr>, True)
         else (fi, False))"

text \<open>
  The state the Find Index keeps between calls: the sequence list strictly increasing
  (hence duplicate-free), the cursor either \<open>-1\<close> or an index into the list, and a
  capacity that is not negative.
\<close>

definition fi_inv :: "FindIndex \<Rightarrow> bool" where
  "fi_inv fi \<longleftrightarrow>
     sorted_wrt (<) (matches fi) \<and> - 1 \<le> current fi \<and>
     current fi < int (length (matches fi)) \<and> 0 \<le> maxCap fi"

section \<open>Byte strings\<close>

text \<open>
  A Go \<open>string\<close> is a byte sequence; \<open>string\<close> here is a list of 8-bit characters. The
  library functions below act on ASCII as Go's do. Outside ASCII Go's \<open>ToUpper\<close>,
  \<open>ToLower\<close> and \<open>TrimSpace\<close> follow the Unicode tables; that part is not modelled, the
  bytes above \<open>0x7F\<close> are left as they are.
\<close>

definition ToUpper_byte :: "char \<Rightarrow> char" where
  "ToUpper_byte c =
     (let n = (of_char c :: nat) in if 97 \<le> n \<and> n \<le> 122 then char_of (n - 32) else c)"

definition ToLower_byte :: "char \<Rightarrow> char" where
  "ToLower_byte c =
     (let n = (of_char c :: nat) in if 65 \<le> n \<and> n \<le> 90 then char_of (n + 32) else c)"

definition ToUpper :: "string \<Rightarrow> string" where
  "ToUpper s = map ToUpper_byte s"

definition ToLower :: "string \<Rightarrow> string" where
  "ToLower s = map ToLower_byte s"

text \<open>\<open>strings.Trim(s, cutset)\<close>: leading and trailing bytes of the cutset removed.\<close>

definition Trim :: "string \<Rightarrow> string \<Rightarrow> string" where
  "Trim s cutset =
     rev (dropWhile (\<lambda>c. c \<in> set cutset) (rev (dropWhile (\<lambda>c. c \<in> set cutset) s)))"

text \<open>\<open>strings.TrimSpace\<close> on ASCII: tab, line feed, vertical tab, form feed, carriage
  return and space.\<close>

definition TrimSpace :: "string \<Rightarrow> string" where
  "TrimSpace s = Trim s [CHR 0x09, CHR 0x0A, CHR 0x0B, CHR 0x0C, CHR 0x0D, CHR '' '']"

fun HasPrefix :: "string \<Rightarrow> string \<Rightarrow> bool" where
  "HasPrefix s [] = True"
| "HasPrefix [] (p # ps) = False"
| "HasPrefix (c # cs) (p # ps) = (c = p \<and> HasPrefix cs ps)"

definition HasSuffix :: "string \<Rightarrow> string \<Rightarrow> bool" where
  "HasSuffix s suffix = HasPrefix (rev s) (rev suffix)"

fun Contains :: "string \<Rightarrow> string \<Rightarrow> bool" where
  "Contains [] substr = (substr = [])"
| "Contains (c # cs) substr = (HasPrefix (c # cs) substr \<or> Contains cs substr)"

section \<open>Severity table\<close>

text \<open>
  \<open>type LevelMap struct { IndexToName []string; NameToIndex map[string]int; Enabled map[int]bool }\<close>.
  Reading a missing key of a Go map gives the zero value; an index beyond the slice
  panics (\<open>None\<close>).
\<close>

record LevelMap =
  IndexToName :: "string list"
  NameToIndex :: "string \<rightharpoonup> int"
  Enabled :: "int \<rightharpoonup> bool"

definition NewLevelMap :: LevelMap where
  "NewLevelMap =
     (let defaults = [[], ''DEBUG'', ''INFO'', ''WARN'', ''ERROR'', [], [], [], [], []]
      in fold (\<lambda>i lm.
                 (if IndexToName lm ! nat i \<noteq> []
                  then lm\<lparr>NameToIndex := (NameToIndex lm)(IndexToName lm ! nat i \<mapsto> i)\<rparr>
                  else lm)\<lparr>Enabled := (Enabled lm)(i \<mapsto> True)\<rparr>)
              [1, 2, 3, 4, 5, 6, 7, 8, 9]
              \<lparr>IndexToName = defaults, NameToIndex = Map.empty, Enabled = Map.empty\<rparr>)"

text \<open>The normalisation both \<open>GetOrAssignIndex\<close> and \<open>stringToSeverity\<close> start with:
  \<^verbatim>\<open>strings.ToUpper(strings.Trim(levelStr, "[]<>: "))\<close>\<close>

definition normalize_level :: "string \<Rightarrow> string" where
  "normalize_level levelStr = ToUpper (Trim levelStr ''[]<>: '')"

text \<open>The loop \<^verbatim>\<open>for i := 5; i <= 9; i++ { if lm.IndexToName[i] == "" { ... return i } }\<close>:
  the first free slot among the given ones.\<close>

datatype slot_search = Panic | Free int | Full

fun first_free :: "string list \<Rightarrow> int list \<Rightarrow> slot_search" where
  "first_free names [] = Full"
| "first_free names (i # rest) =
     (if length names \<le> nat i then Panic
      else if names ! nat i = [] then Free i
      else first_free names rest)"

definition GetOrAssignIndex :: "LevelMap \<Rightarrow> string \<Rightarrow> (LevelMap \<times> int) option" where
  "GetOrAssignIndex lm levelStr =
     (let normalized = normalize_level levelStr in
      case NameToIndex lm normalized of
        Some index \<Rightarrow> Some (lm, index)
      | None \<Rightarrow>
          (case first_free (IndexToName lm) [5, 6, 7, 8, 9] of
             Panic \<Rightarrow> None
           | Free i \<Rightarrow>
               Some (lm\<lparr>IndexToName := (IndexToName lm)[nat i := normalized],
                        NameToIndex := (NameToIndex lm)(normalized \<mapsto> i),
                        Enabled := (Enabled lm)(i \<mapsto> True)\<rparr>, i)
           | Full \<Rightarrow>
               (let lm1 =
                      (if IndexToName lm ! 9 \<noteq> ''OTHER'' then
                         (let oldName = IndexToName lm ! 9;
                              lm0 = (if oldName \<noteq> [] \<and> oldName \<noteq> ''OTHER''
                                     then lm\<lparr>NameToIndex := (NameToIndex lm)(oldName := None)\<rparr>
                                     else lm)
                          in lm0\<lparr>IndexToName := (IndexToName lm0)[9 := ''OTHER''],
                                 NameToIndex := (NameToIndex lm0)(''OTHER'' \<mapsto> 9),
                                 Enabled := (Enabled lm0)(9 \<mapsto> True)\<rparr>)
                       else lm)
                in Some (lm1\<lparr>NameToIndex := (NameToIndex lm1)(normalized \<mapsto> 9)\<rparr>, 9))))"

definition severityToIndex :: "Severity \<Rightarrow> int" where
  "severityToIndex level =
     (case level of SevDebug \<Rightarrow> 1 | SevInfo \<Rightarrow> 2 | SevWarn \<Rightarrow> 3 | SevError \<Rightarrow> 4 | _ \<Rightarrow> 9)"

definition enabled_at :: "LevelMap \<Rightarrow> int \<Rightarrow> bool" where
  "enabled_at lm index = (case Enabled lm index of Some b \<Rightarrow> b | None \<Rightarrow> False)"

definition IsEnabled :: "LevelMap \<Rightarrow> Severity \<Rightarrow> bool" where
  "IsEnabled lm level = enabled_at lm (severityToIndex level)"

definition Toggle :: "LevelMap \<Rightarrow> int \<Rightarrow> LevelMap" where
  "Toggle lm index =
     (if index < 1 \<or> 9 < index then lm
      else lm\<lparr>Enabled := (Enabled lm)(index \<mapsto> \<not> enabled_at lm index)\<rparr>)"

text \<open>\<open>stringToSeverity\<close> returns the severity and, since it registers names, the table.\<close>

definition stringToSeverity :: "LevelMap \<Rightarrow> string \<Rightarrow> (LevelMap \<times> Severity) option" where
  "stringToSeverity lm levelStr =
     (let normalized = normalize_level levelStr in
      if normalized = ''DEBUG'' then Some (lm, SevDebug)
      else if normalized = ''INFO'' then Some (lm, SevInfo)
      else if normalized = ''WARN'' then Some (lm, SevWarn)
      else if normalized = ''ERROR'' then Some (lm, SevError)
      else if normalized = ''WARNING'' then
        map_option (\<lambda>(lm', _). (lm', SevWarn)) (GetOrAssignIndex lm normalized)
      else if normalized = ''ERR'' then
        map_option (\<lambda>(lm', _). (lm', SevError)) (GetOrAssignIndex lm normalized)
      else
        map_option (\<lambda>(lm', _). (lm', SevUnknown)) (GetOrAssignIndex lm normalized))"

text \<open>Feeding a list of level strings through \<open>stringToSeverity\<close>, as successive
  detections do, and then asking for the slot of each with \<open>GetOrAssignIndex\<close>.\<close>

fun detect_all :: "LevelMap \<Rightarrow> string list \<Rightarrow> (LevelMap \<times> int list) option" where
  "detect_all lm [] = Some (lm, [])"
| "detect_all lm (s # ss) =
     (case stringToSeverity lm s of
        None \<Rightarrow> None
      | Some (lm1, _) \<Rightarrow>
          (case GetOrAssignIndex lm1 s of
             None \<Rightarrow> None
           | Some (lm2, i) \<Rightarrow>
               (case detect_all lm2 ss of
                  None \<Rightarrow> None
                | Some (lm3, is) \<Rightarrow> Some (lm3, i # is))))"

section \<open>Filters\<close>

datatype matcher_error = InvalidRegex

text \<open>\<open>NewMatcher\<close>; \<open>compile\<close> stands for \<open>regexp.Compile\<close>, giving \<open>MatchString\<close> of the
  compiled expression or \<open>None\<close> for a pattern that does not compile.\<close>

definition NewMatcher :: "(string \<Rightarrow> (string \<Rightarrow> bool) option) \<Rightarrow> string \<Rightarrow> matcher_error + TextMatcher" where
  "NewMatcher compile s0 =
     (let original = s0; s = TrimSpace s0 in
      if s = [] then Inr \<lparr>raw = original, isRegex = False, pattern = (\<lambda>_. False), lowered = []\<rparr>
      else if 3 \<le> length s \<and> HasPrefix s ''/'' \<and> HasSuffix s ''/'' then
        (case compile (''(?i)'' @ take (length s - 2) (drop 1 s)) of
           None \<Rightarrow> Inl InvalidRegex
         | Some regex \<Rightarrow> Inr \<lparr>raw = original, isRegex = True, pattern = regex, lowered = []\<rparr>)
      else Inr \<lparr>raw = original, isRegex = False, pattern = (\<lambda>_. False),
                lowered = ToLower s\<rparr>)"

definition Match :: "TextMatcher \<Rightarrow> string \<Rightarrow> bool" where
  "Match m line =
     (if isRegex m then pattern m line
      else if TrimSpace (raw m) = [] then False
      else Contains (ToLower line) (lowered m))"

record Filters =
  Include :: "TextMatcher list"
  Exclude :: "TextMatcher list"
  Highlights :: "TextMatcher list"

definition NewFilters :: Filters where
  "NewFilters = \<lparr>Include = [], Exclude = [], Highlights = []\<rparr>"

text \<open>The loop \<^verbatim>\<open>for _, m := range ms { if m.Match(line) { return ... } }\<close>.\<close>

fun any_match :: "TextMatcher list \<Rightarrow> string \<Rightarrow> bool" where
  "any_match [] line = False"
| "any_match (m # ms) line = (if Match m line then True else any_match ms line)"

definition ShouldShowLine :: "Filters \<Rightarrow> string \<Rightarrow> bool" where
  "ShouldShowLine f line =
     (if any_match (Exclude f) line then False
      else if length (Include f) = 0 then True
      else if any_match (Include f) line then True
      else False)"

definition ShouldHighlight :: "Filters \<Rightarrow> string \<Rightarrow> bool" where
  "ShouldHighlight f line = any_match (Highlights f) line"

definition AddInclude :: "Filters \<Rightarrow> TextMatcher \<Rightarrow> Filters" where
  "AddInclude f m = f\<lparr>Include := Include f @ [m]\<rparr>"

definition AddExclude :: "Filters \<Rightarrow> TextMatcher \<Rightarrow> Filters" where
  "AddExclude f m = f\<lparr>Exclude := Exclude f @ [m]\<rparr>"

definition AddHighlight :: "Filters \<Rightarrow> TextMatcher \<Rightarrow> Filters" where
  "AddHighlight f m = f\<lparr>Highlights := Highlights f @ [m]\<rparr>"

text \<open>The substring matcher \<open>NewMatcher\<close> builds for a pattern that is not wrapped in
  slashes (no regular expression is compiled on that path).\<close>

definition substring_matcher :: "string \<Rightarrow> TextMatcher" where
  "substring_matcher s =
     (case NewMatcher (\<lambda>_. None) s of Inr m \<Rightarrow> m
      | Inl _ \<Rightarrow> \<lparr>raw = [], isRegex = False, pattern = (\<lambda>_. False), lowered = []\<rparr>)"

section \<open>Visibility\<close>

text \<open>
  \<open>type VisiblePlan struct { Include *Filters; LevelMap *LevelMap; DockerVisible map[string]bool }\<close>.
  A \<open>nil\<close> pointer is \<open>None\<close>; a \<open>nil\<close> map is the empty map. The two pointer fields are
  named \<open>plan_Include\<close> and \<open>plan_LevelMap\<close>.
\<close>

record VisiblePlan =
  plan_Include :: "Filters option"
  plan_LevelMap :: "LevelMap option"
  DockerVisible :: "string \<rightharpoonup> bool"

definition ShouldShowEvent :: "LogEvent \<Rightarrow> VisiblePlan \<Rightarrow> bool" where
  "ShouldShowEvent event plan =
     (let visible = (case DockerVisible plan (Container event) of
                       Some v \<Rightarrow> v | None \<Rightarrow> False);
          hasName = (DockerVisible plan (Container event) \<noteq> None)
      in
      if (case plan_LevelMap plan of
            Some lm \<Rightarrow> \<not> IsEnabled lm (Level event) | None \<Rightarrow> False) then False
      else if dom (DockerVisible plan) \<noteq> {} \<and> Source event = SourceDocker \<and>
              hasName \<and> \<not> visible then False
      else if dom (DockerVisible plan) \<noteq> {} \<and> Source event = SourceDocker \<and>
              \<not> hasName \<and> dom (DockerVisible plan) \<noteq> {} then False
      else if (case plan_Include plan of
                 Some f \<Rightarrow> \<not> ShouldShowLine f (Line event) | None \<Rightarrow> False) then False
      else True)"

definition ComputeVisible :: "LogEvent list \<Rightarrow> VisiblePlan \<Rightarrow> LogEvent list" where
  "ComputeVisible events plan =
     (if length events = 0 then []
      else filter (\<lambda>event. ShouldShowEvent event plan) events)"

section \<open>Properties of the ring buffer\<close>

lemma ring_holds_NewRing: "0 < c \<Longrightarrow> ring_holds (nat c) [] (NewRing c)"
  by (simp add: ring_holds_def NewRing_def Let_def)

lemma mod_distinct_window:
  fixes k n c :: nat
  assumes "k < n" "n < k + c"
  shows "k mod c \<noteq> n mod c"
proof
  assume "k mod c = n mod c"
  then have "n mod c = k mod c" by simp
  then have "c dvd n - k"
    using assms by (simp add: mod_eq_dvd_iff_nat)
  then have "c \<le> n - k"
    using assms by (intro dvd_imp_le) auto
  with assms show False by simp
qed

lemma ring_holds_Append:
  fixes e :: LogEvent
  assumes h: "ring_holds c out r"
  defines "e' \<equiv> e\<lparr>Seq := of_nat (length out + 1)\<rparr>"
  shows "\<exists>r'. Append r e = Some (r', e') \<and> ring_holds c (out @ [e']) r'"
proof -
  let ?n = "length out"
  let ?r' = "r\<lparr>r_seq := r_seq r + 1,
                 r_buf := (r_buf r)[r_head r := e'],
                 r_head := (r_head r + 1) mod r_cap r,
                 r_size := (if r_size r < r_cap r then r_size r + 1 else r_size r)\<rparr>"
  from h have c: "0 < c" and cap: "r_cap r = c" and len: "length (r_buf r) = c"
    and sq: "r_seq r = of_nat ?n" and sz: "r_size r = min ?n c"
    and hd: "r_head r = ?n mod c"
    and bf: "\<And>k. k < ?n \<Longrightarrow> ?n \<le> k + c \<Longrightarrow> r_buf r ! (k mod c) = out ! k"
    and st: "\<And>k. k < ?n \<Longrightarrow> Seq (out ! k) = of_nat (k + 1)"
    by (simp_all add: ring_holds_def)
  have e'_eq: "e\<lparr>Seq := r_seq r + 1\<rparr> = e'"
    by (simp add: e'_def sq)
  have app: "Append r e = Some (?r', e')"
    using c cap len hd by (simp add: Append_def Let_def e'_eq not_le)
  have buf': "(r_buf r)[r_head r := e'] ! (k mod c) = (out @ [e']) ! k"
    if k: "k < ?n + 1" and w: "?n + 1 \<le> k + c" for k
  proof (cases "k = ?n")
    case True
    then show ?thesis using c len hd by simp
  next
    case False
    with k have kn: "k < ?n" by simp
    with w have "?n < k + c" by simp
    with kn have "k mod c \<noteq> ?n mod c" by (rule mod_distinct_window)
    then have "(r_buf r)[r_head r := e'] ! (k mod c) = r_buf r ! (k mod c)"
      by (simp add: hd)
    also have "\<dots> = out ! k" using kn w by (intro bf) simp_all
    finally show ?thesis using kn by (simp add: nth_append)
  qed
  have "ring_holds c (out @ [e']) ?r'"
    unfolding ring_holds_def
  proof (intro conjI allI impI)
    show "0 < c" by (rule c)
    show "r_cap ?r' = c" by (simp add: cap)
    show "length (r_buf ?r') = c" by (simp add: len)
    show "r_seq ?r' = of_nat (length (out @ [e']))" by (simp add: sq)
    show "r_size ?r' = min (length (out @ [e'])) c" by (simp add: sz cap)
    show "r_head ?r' = length (out @ [e']) mod c" by (simp add: hd cap mod_simps)
    show "r_buf ?r' ! (k mod c) = (out @ [e']) ! k"
      if "k < length (out @ [e'])" "length (out @ [e']) \<le> k + c" for k
      using that buf' [of k] by simp
    show "Seq ((out @ [e']) ! k) = of_nat (k + 1)" if "k < length (out @ [e'])" for k
      using that st [of k] by (cases "k = ?n") (simp_all add: nth_append e'_def)
  qed
  with app show ?thesis by blast
qed


lemma append_all_holds:
  "ring_holds c out r \<Longrightarrow>
   \<exists>r' out'. append_all r es = Some (r', out') \<and> ring_holds c (out @ out') r' \<and>
     length out' = length es \<and>
     (\<forall>i < length es. out' ! i = (es ! i)\<lparr>Seq := of_nat (length out + i + 1)\<rparr>)"
proof (induction es arbitrary: out r)
  case Nil
  then show ?case by simp
next
  case (Cons e es)
  let ?e' = "e\<lparr>Seq := of_nat (length out + 1)\<rparr>"
  from ring_holds_Append [OF Cons.prems, of e]
  obtain r1 where a: "Append r e = Some (r1, ?e')" and h1: "ring_holds c (out @ [?e']) r1"
    by blast
  from Cons.IH [OF h1]
  obtain r2 out2 where b: "append_all r1 es = Some (r2, out2)"
    and h2: "ring_holds c ((out @ [?e']) @ out2) r2"
    and l2: "length out2 = length es"
    and s2: "\<And>i. i < length es \<Longrightarrow>
               out2 ! i = (es ! i)\<lparr>Seq := of_nat (length (out @ [?e']) + i + 1)\<rparr>"
    by blast
  have "append_all r (e # es) = Some (r2, ?e' # out2)"
    by (simp add: a b)
  moreover have "ring_holds c (out @ ?e' # out2) r2"
    using h2 by simp
  moreover have "length (?e' # out2) = length (e # es)"
    by (simp add: l2)
  moreover have "(?e' # out2) ! i = ((e # es) ! i)\<lparr>Seq := of_nat (length out + i + 1)\<rparr>"
    if "i < length (e # es)" for i
    using that s2 [of "i - 1"] by (cases i) simp_all
  ultimately show ?case by blast
qed

lemma mod_window_index:
  fixes n c j :: nat
  assumes "c \<le> n" "j < c"
  shows "(n - c + j) mod c = (if n mod c + j < c then n mod c + j else n mod c + j - c)"
proof -
  have "(n - c + j) mod c = (n - c + j + c) mod c" by simp
  also have "n - c + j + c = n + j" using assms by simp
  also have "(n + j) mod c = (n mod c + j) mod c" by (simp add: mod_simps)
  also have "\<dots> = (if n mod c + j < c then n mod c + j else n mod c + j - c)"
  proof (cases "n mod c + j < c")
    case True
    then show ?thesis by simp
  next
    case False
    moreover have "n mod c < c" using assms by simp
    then have "n mod c + j - c < c" using assms by linarith
    ultimately show ?thesis by (simp add: le_mod_geq)
  qed
  finally show ?thesis .
qed


lemma copy_go_fill: "length src = n \<Longrightarrow> copy_go (replicate n z) src = src"
  by (simp add: copy_go_def)

lemma Snapshot_holds:
  assumes h: "ring_holds c out r"
  shows "Snapshot r = Some (drop (length out - c) out)"
proof -
  let ?n = "length out"
  from h have c: "0 < c" and cap: "r_cap r = c" and len: "length (r_buf r) = c"
    and sz: "r_size r = min ?n c"
    and hd: "r_head r = ?n mod c"
    and bf: "\<And>k. k < ?n \<Longrightarrow> ?n \<le> k + c \<Longrightarrow> r_buf r ! (k mod c) = out ! k"
    by (simp_all add: ring_holds_def)
  consider "?n = 0" | "0 < ?n" "?n < c" | "c \<le> ?n" by linarith
  then show ?thesis
  proof cases
    case 1
    then show ?thesis by (simp add: Snapshot_def sz)
  next
    case 2
    have "take ?n (r_buf r) = out"
    proof (rule nth_equalityI)
      show "length (take ?n (r_buf r)) = length out" using 2 len by simp
      fix i assume "i < length (take ?n (r_buf r))"
      then have i: "i < ?n" by simp
      with 2 have "r_buf r ! (i mod c) = out ! i" by (intro bf) simp_all
      with i 2 show "take ?n (r_buf r) ! i = out ! i" by simp
    qed
    then have "copy_go (replicate ?n zero_event) (take ?n (r_buf r)) = out"
      by (simp add: copy_go_fill)
    with 2 show ?thesis
      by (simp add: Snapshot_def sz cap len Let_def)
  next
    case 3
    let ?h = "?n mod c"
    have hc: "?h < c" using c by simp
    have r1: "copy_go (replicate c zero_event) (drop ?h (r_buf r)) =
              drop ?h (r_buf r) @ replicate ?h zero_event"
    proof -
      have "min c (c - ?h) = c - ?h" by simp
      moreover have "c - (c - ?h) = ?h" using hc by simp
      ultimately show ?thesis using len by (simp add: copy_go_def)
    qed
    have snap: "Snapshot r = Some (drop ?h (r_buf r) @ take ?h (r_buf r))"
    proof (cases "?h = 0")
      case True
      with 3 c show ?thesis
        by (simp add: Snapshot_def sz cap len hd Let_def copy_go_fill)
    next
      case False
      have "copy_go (drop (c - ?h) (drop ?h (r_buf r) @ replicate ?h zero_event))
                    (take ?h (r_buf r)) = take ?h (r_buf r)"
        using hc len by (simp add: copy_go_fill)
      moreover have "take (c - ?h) (drop ?h (r_buf r) @ replicate ?h zero_event) =
                     drop ?h (r_buf r)"
        using hc len by simp
      ultimately show ?thesis
        using False 3 c hc
        by (simp add: Snapshot_def sz cap len hd Let_def r1 del: drop_append take_append)
    qed
    have "drop ?h (r_buf r) @ take ?h (r_buf r) = drop (?n - c) out"
    proof (rule nth_equalityI)
      show "length (drop ?h (r_buf r) @ take ?h (r_buf r)) = length (drop (?n - c) out)"
        using 3 len hc by simp
      fix j assume "j < length (drop ?h (r_buf r) @ take ?h (r_buf r))"
      then have j: "j < c" using len hc by simp
      have k: "?n - c + j < ?n" "?n \<le> (?n - c + j) + c" using 3 j by simp_all
      have "(drop ?h (r_buf r) @ take ?h (r_buf r)) ! j =
            r_buf r ! (if ?h + j < c then ?h + j else ?h + j - c)"
        using j hc len by (auto simp: nth_append min_def add.commute)
      also have "\<dots> = r_buf r ! ((?n - c + j) mod c)"
        using 3 j by (simp only: mod_window_index)
      also have "\<dots> = out ! (?n - c + j)" using k by (rule bf)
      finally show "(drop ?h (r_buf r) @ take ?h (r_buf r)) ! j = drop (?n - c) out ! j"
        using 3 by simp
    qed
    with snap show ?thesis by simp
  qed
qed


lemma unat_of_nat64: "n < 2 ^ 64 \<Longrightarrow> unat (of_nat n :: 64 word) = n"
  by (simp add: unat_of_nat)

lemma GetBySeq_holds:
  assumes h: "ring_holds c out r" and b: "length out < 2 ^ 64"
  shows "GetBySeq r s =
           (if length out - min (length out) c + 1 \<le> unat s \<and> unat s \<le> length out
            then Some (out ! (unat s - 1), True) else Some (zero_event, False))"
proof -
  let ?n = "length out"
  let ?m = "unat s"
  let ?lo = "?n - min ?n c + 1"
  from h have c: "0 < c" and cap: "r_cap r = c" and len: "length (r_buf r) = c"
    and sq: "r_seq r = of_nat ?n" and sz: "r_size r = min ?n c"
    and hd: "r_head r = ?n mod c"
    and bf: "\<And>k. k < ?n \<Longrightarrow> ?n \<le> k + c \<Longrightarrow> r_buf r ! (k mod c) = out ! k"
    and st: "\<And>k. k < ?n \<Longrightarrow> Seq (out ! k) = of_nat (k + 1)"
    by (simp_all add: ring_holds_def)
  show ?thesis
  proof (cases "?n = 0")
    case True
    then show ?thesis by (simp add: GetBySeq_def sz)
  next
    case False
    then have n: "0 < ?n" by simp
    have old: "r_seq r - of_nat (r_size r) + 1 = (of_nat ?lo :: 64 word)"
      by (simp add: sq sz)
    have "0 < min ?n c" "min ?n c \<le> ?n" using n c by simp_all
    then have lo_le: "?lo \<le> ?n" by linarith
    have ulo: "unat (of_nat ?lo :: 64 word) = ?lo"
      using lo_le b by (intro unat_of_nat64) simp
    have un: "unat (r_seq r) = ?n"
      using b by (simp add: sq unat_of_nat64)
    have lt: "s < of_nat ?lo \<longleftrightarrow> ?m < ?lo"
      by (simp only: word_less_nat_alt ulo)
    have gt: "r_seq r < s \<longleftrightarrow> ?n < ?m"
      by (simp only: word_less_nat_alt un)
    have s0: "s = 0 \<longleftrightarrow> ?m = 0"
      by (simp add: unat_eq_0)
    show ?thesis
    proof (cases "?lo \<le> ?m \<and> ?m \<le> ?n")
      case False
      then have "?m < ?lo \<or> ?n < ?m" by linarith
      then have "s < of_nat ?lo \<or> r_seq r < s"
        unfolding lt gt .
      then have "GetBySeq r s = Some (zero_event, False)"
        unfolding GetBySeq_def Let_def old by auto
      with False show ?thesis by simp
    next
      case True
      then have lo: "?lo \<le> ?m" and hi: "?m \<le> ?n" by simp_all
      have m1: "1 \<le> ?m" using lo by simp
      have nlt: "\<not> s < of_nat ?lo" unfolding lt using lo by linarith
      have ngt: "\<not> r_seq r < s" unfolding gt using hi by linarith
      from nlt have "of_nat ?lo \<le> s" by (simp only: not_less)
      then have off: "unat (s - of_nat ?lo) = ?m - ?lo"
        by (simp only: unat_sub ulo)
      have idx: "(if r_size r < r_cap r then ?m - ?lo else (r_head r + (?m - ?lo)) mod r_cap r)
                 = (?m - 1) mod c"
      proof (cases "?n < c")
        case True
        then show ?thesis using hi m1 by (simp add: sz cap)
      next
        case False
        then have cn: "c \<le> ?n" by simp
        define d where "d = ?m - ?lo"
        have mn: "min ?n c = c" using cn by simp
        have "?n + d = (?m - 1) + c" using lo hi cn unfolding d_def mn by linarith
        then have "(?n + d) mod c = ((?m - 1) + c) mod c" by (simp only:)
        also have "\<dots> = (?m - 1) mod c" by simp
        finally have "(?n mod c + d) mod c = (?m - 1) mod c"
          by (simp only: mod_add_left_eq)
        moreover have "\<not> r_size r < r_cap r" using cn by (simp add: sz cap)
        ultimately show ?thesis by (simp only: hd cap d_def if_False)
      qed
      have k: "?m - 1 < ?n" "?n \<le> (?m - 1) + c" using lo hi m1 by auto
      have ev: "r_buf r ! ((?m - 1) mod c) = out ! (?m - 1)" using k by (rule bf)
      have "Seq (out ! (?m - 1)) = of_nat ?m" using st [OF k(1)] m1 by simp
      then have sq_ev: "Seq (out ! (?m - 1)) = s" by simp
      have inb: "\<not> length (r_buf r) \<le> (?m - 1) mod c" using c len by (simp add: not_le)
      have ne: "r_size r \<noteq> 0" "s \<noteq> 0"
        using n c m1 by (simp_all add: sz s0)
      have "GetBySeq r s = Some (out ! (?m - 1), True)"
        unfolding GetBySeq_def Let_def old off idx
        using ne nlt ngt inb c by (simp only: ev sq_ev cap) simp
      with True show ?thesis by simp
    qed
  qed
qed

text \<open>
  C1. For every capacity \<open>C \<ge> 1\<close>, appending \<open>N \<ge> C\<close> events to a new ring never panics,
  leaves \<open>Size\<close> equal to \<open>C\<close>, and \<open>Snapshot\<close> is exactly the last \<open>C\<close> of the
  events that \<open>Append\<close> returned (each input event with its sequence number filled in),
  oldest first. \<open>Snapshot\<close> builds its result in a fresh slice by \<open>copy\<close>; the model
  returns it as a list value of its own, which no later operation on the ring can reach.
\<close>

theorem ring_snapshot_latest:
  assumes "1 \<le> C" and "nat C \<le> length es"
  shows "\<exists>r out. append_all (NewRing C) es = Some (r, out) \<and>
           length out = length es \<and>
           (\<forall>i < length es. out ! i = (es ! i)\<lparr>Seq := of_nat (i + 1)\<rparr>) \<and>
           Size r = nat C \<and>
           Snapshot r = Some (drop (length es - nat C) out)"
proof -
  from assms have "ring_holds (nat C) [] (NewRing C)"
    by (intro ring_holds_NewRing) simp
  from append_all_holds [OF this, of es]
  obtain r out where a: "append_all (NewRing C) es = Some (r, out)"
    and h: "ring_holds (nat C) out r"
    and l: "length out = length es"
    and s: "\<forall>i < length es. out ! i = (es ! i)\<lparr>Seq := of_nat (i + 1)\<rparr>"
    by auto
  from h l assms have "Size r = nat C"
    by (simp add: Size_def ring_holds_def)
  moreover from Snapshot_holds [OF h] l
  have "Snapshot r = Some (drop (length es - nat C) out)" by simp
  ultimately show ?thesis using a l s by blast
qed

theorem ring_snapshot_latest_witness:
  "(1::int) \<le> 2 \<and>
   nat 2 \<le> length [mk_event ''a'' SevInfo, mk_event ''b'' SevWarn, mk_event ''c'' SevError] \<and>
   (\<exists>r out. append_all (NewRing 2)
                [mk_event ''a'' SevInfo, mk_event ''b'' SevWarn, mk_event ''c'' SevError]
              = Some (r, out) \<and>
            Size r = 2 \<and> Snapshot r = Some (drop 1 out))"
  using ring_snapshot_latest [of 2 "[mk_event ''a'' SevInfo, mk_event ''b'' SevWarn,
                                     mk_event ''c'' SevError]"]
  by auto

lemma ring_holds_NewRing_any: "ring_holds (r_cap (NewRing C)) [] (NewRing C)"
  by (simp add: ring_holds_def NewRing_def Let_def)

lemma ring_seq_bounds:
  assumes h: "ring_holds c out r" and n: "out \<noteq> []" and b: "length out < 2 ^ 64"
  shows "unat (OldestSeq r) = length out - min (length out) c + 1"
    and "unat (CurrentSeq r) = length out"
proof -
  let ?n = "length out"
  let ?lo = "?n - min ?n c + 1"
  from h have c: "0 < c" and sq: "r_seq r = of_nat ?n" and sz: "r_size r = min ?n c"
    by (simp_all add: ring_holds_def)
  from n have n0: "0 < ?n" by simp
  have "0 < min ?n c" "min ?n c \<le> ?n" using n0 c by simp_all
  then have lo_le: "?lo \<le> ?n" by linarith
  have old: "r_seq r - of_nat (r_size r) + 1 = (of_nat ?lo :: 64 word)"
    by (simp add: sq sz)
  have "r_size r \<noteq> 0" using n0 c by (simp add: sz)
  then have "OldestSeq r = of_nat ?lo" by (simp only: OldestSeq_def old if_False)
  moreover have "unat (of_nat ?lo :: 64 word) = ?lo"
    using lo_le b by (intro unat_of_nat64) simp
  ultimately show "unat (OldestSeq r) = ?lo" by simp
  show "unat (CurrentSeq r) = ?n"
    using b by (simp add: CurrentSeq_def sq unat_of_nat64)
qed

lemma append_all_abc:
  "append_all (NewRing 2) [mk_event ''a'' SevInfo, mk_event ''b'' SevWarn, mk_event ''c'' SevError]
   = Some (\<lparr>r_cap = 2,
             r_buf = [(mk_event ''c'' SevError)\<lparr>Seq := 3\<rparr>, (mk_event ''b'' SevWarn)\<lparr>Seq := 2\<rparr>],
             r_head = 1, r_size = 2, r_seq = 3\<rparr>,
           [(mk_event ''a'' SevInfo)\<lparr>Seq := 1\<rparr>, (mk_event ''b'' SevWarn)\<lparr>Seq := 2\<rparr>,
            (mk_event ''c'' SevError)\<lparr>Seq := 3\<rparr>])"
  by (simp add: NewRing_def Append_def Let_def numeral_2_eq_2)

text \<open>
  C8, as the code has it. On the new, empty ring \<open>OldestSeq\<close> and \<open>CurrentSeq\<close> are both
  \<open>0\<close>, and \<open>GetBySeq\<close> answers not-found for \<open>0\<close> although \<open>0\<close> lies in that range:
  the guard \<open>r.size == 0 || seq == 0\<close> comes first.
\<close>

theorem getbyseq_empty_counterexample:
  "GetBySeq (NewRing 3) 0 = Some (zero_event, False) \<and>
   \<not> ((0 :: 64 word) < OldestSeq (NewRing 3) \<or> CurrentSeq (NewRing 3) < 0)"
  by (simp add: GetBySeq_def NewRing_def OldestSeq_def CurrentSeq_def Let_def)

text \<open>
  C8, amended. After fewer than \<open>2^64\<close> appends (the range of the \<open>uint64\<close> counter) to
  a new ring: on an empty ring every lookup is not-found; once the ring holds an event,
  \<open>GetBySeq s\<close> is not-found exactly when \<open>s\<close> is below \<open>OldestSeq\<close> or above
  \<open>CurrentSeq\<close>, and for \<open>s\<close> in that range it returns the event that \<open>Append\<close> returned
  with sequence \<open>s\<close>. \<open>GetBySeq\<close> only reads the ring (it takes the read lock and
  returns no new state), so no lookup changes it.
\<close>

theorem getbyseq_in_range:
  assumes b: "length es < 2 ^ 64"
  shows "\<exists>r out. append_all (NewRing C) es = Some (r, out) \<and> length out = length es \<and>
     (es = [] \<longrightarrow> GetBySeq r s = Some (zero_event, False)) \<and>
     (es \<noteq> [] \<longrightarrow>
        ((\<exists>e. GetBySeq r s = Some (e, False)) \<longleftrightarrow> (s < OldestSeq r \<or> CurrentSeq r < s)) \<and>
        (OldestSeq r \<le> s \<and> s \<le> CurrentSeq r \<longrightarrow>
           unat s - 1 < length es \<and> out ! (unat s - 1) = (es ! (unat s - 1))\<lparr>Seq := s\<rparr> \<and>
           GetBySeq r s = Some (out ! (unat s - 1), True)))"
proof -
  let ?c = "r_cap (NewRing C)"
  from append_all_holds [OF ring_holds_NewRing_any, of C es]
  obtain r out where a: "append_all (NewRing C) es = Some (r, out)"
    and h: "ring_holds ?c out r"
    and l: "length out = length es"
    and st: "\<And>i. i < length es \<Longrightarrow> out ! i = (es ! i)\<lparr>Seq := of_nat (i + 1)\<rparr>"
    by auto
  let ?n = "length out"
  let ?lo = "?n - min ?n ?c + 1"
  from b l have b': "?n < 2 ^ 64" by simp
  note g = GetBySeq_holds [OF h b', of s]
  have empty: "GetBySeq r s = Some (zero_event, False)" if "es = []"
    using that l g by simp
  have nonempty:
    "((\<exists>e. GetBySeq r s = Some (e, False)) \<longleftrightarrow> (s < OldestSeq r \<or> CurrentSeq r < s)) \<and>
     (OldestSeq r \<le> s \<and> s \<le> CurrentSeq r \<longrightarrow>
        unat s - 1 < length es \<and> out ! (unat s - 1) = (es ! (unat s - 1))\<lparr>Seq := s\<rparr> \<and>
        GetBySeq r s = Some (out ! (unat s - 1), True))"
    if ne: "es \<noteq> []"
  proof -
    from ne l have "out \<noteq> []" by auto
    note sb = ring_seq_bounds [OF h this b']
    have lt: "s < OldestSeq r \<longleftrightarrow> unat s < ?lo" by (simp only: word_less_nat_alt sb)
    have gt: "CurrentSeq r < s \<longleftrightarrow> ?n < unat s" by (simp only: word_less_nat_alt sb)
    have le1: "OldestSeq r \<le> s \<longleftrightarrow> ?lo \<le> unat s" by (simp only: word_le_nat_alt sb)
    have le2: "s \<le> CurrentSeq r \<longleftrightarrow> unat s \<le> ?n" by (simp only: word_le_nat_alt sb)
    show ?thesis
    proof (cases "?lo \<le> unat s \<and> unat s \<le> ?n")
      case True
      then have gs: "GetBySeq r s = Some (out ! (unat s - 1), True)" using g by simp
      from True have i: "unat s - 1 < length es" "1 \<le> unat s" using l by auto
      have "of_nat (unat s - 1 + 1) = s" using i(2) by simp
      with st [OF i(1)] have "out ! (unat s - 1) = (es ! (unat s - 1))\<lparr>Seq := s\<rparr>" by simp
      with gs i(1) True show ?thesis unfolding lt gt le1 le2 by auto
    next
      case False
      then have gs: "GetBySeq r s = Some (zero_event, False)" using g by simp
      with False show ?thesis unfolding lt gt le1 le2 by auto
    qed
  qed
  from a l empty nonempty show ?thesis by blast
qed

theorem getbyseq_in_range_witness:
  "length [mk_event ''a'' SevInfo, mk_event ''b'' SevWarn, mk_event ''c'' SevError] < 2 ^ 64 \<and>
   (\<exists>r out. append_all (NewRing 2)
                [mk_event ''a'' SevInfo, mk_event ''b'' SevWarn, mk_event ''c'' SevError]
              = Some (r, out) \<and>
            OldestSeq r = 2 \<and> CurrentSeq r = 3 \<and>
            GetBySeq r 3 = Some ((mk_event ''c'' SevError)\<lparr>Seq := 3\<rparr>, True))"
proof -
  let ?es = "[mk_event ''a'' SevInfo, mk_event ''b'' SevWarn, mk_event ''c'' SevError]"
  have b: "length ?es < 2 ^ 64" by simp
  from getbyseq_in_range [OF b, of 2 3]
  show ?thesis
    unfolding append_all_abc
    by (simp add: OldestSeq_def CurrentSeq_def)
qed

section \<open>Properties of the find index\<close>

lemma sort_Search_loop_spec:
  shows "(\<forall>a b. a \<le> b \<and> b < n \<and> f a \<longrightarrow> f b) \<Longrightarrow> i \<le> j \<Longrightarrow> j \<le> n \<Longrightarrow>
         (\<forall>k<i. \<not> f k) \<Longrightarrow> (\<forall>k. j \<le> k \<and> k < n \<longrightarrow> f k) \<Longrightarrow>
         i \<le> sort_Search_loop i j f \<and> sort_Search_loop i j f \<le> j \<and>
         (\<forall>k < sort_Search_loop i j f. \<not> f k) \<and>
         (\<forall>k. sort_Search_loop i j f \<le> k \<and> k < n \<longrightarrow> f k)"
proof (induction i j f rule: sort_Search_loop.induct)
  case (1 i j f)
  let ?h = "(i + j) div 2"
  note mono = "1.prems"(1) and ij = "1.prems"(2) and jn = "1.prems"(3)
    and lower = "1.prems"(4) and upper = "1.prems"(5)
  show ?case
  proof (cases "i < j")
    case False
    then have eq: "sort_Search_loop i j f = i"
      by (subst sort_Search_loop.simps) simp
    from False ij have "i = j" by simp
    with lower upper show ?thesis unfolding eq by simp
  next
    case True
    then have h: "i \<le> ?h" "?h < j" by auto
    from h jn have hn: "?h < n" "?h \<le> n" "?h + 1 \<le> j" by simp_all
    show ?thesis
    proof (cases "f ?h")
      case fh: True
      have eq: "sort_Search_loop i j f = sort_Search_loop i ?h f"
        using True fh by (subst sort_Search_loop.simps) (simp add: Let_def)
      have up: "\<forall>k. ?h \<le> k \<and> k < n \<longrightarrow> f k"
        using fh mono by blast
      from fh have fh': "\<not> \<not> f ?h" by simp
      note IH = "1.IH"(2) [OF True refl fh' mono h(1) hn(2) lower up]
      show ?thesis unfolding eq
      proof (intro conjI)
        show "i \<le> sort_Search_loop i ?h f" by (rule IH [THEN conjunct1])
        show "sort_Search_loop i ?h f \<le> j"
          using IH [THEN conjunct2, THEN conjunct1] h(2) by linarith
        show "\<forall>k < sort_Search_loop i ?h f. \<not> f k"
          by (rule IH [THEN conjunct2, THEN conjunct2, THEN conjunct1])
        show "\<forall>k. sort_Search_loop i ?h f \<le> k \<and> k < n \<longrightarrow> f k"
          by (rule IH [THEN conjunct2, THEN conjunct2, THEN conjunct2])
      qed
    next
      case nfh: False
      have eq: "sort_Search_loop i j f = sort_Search_loop (?h + 1) j f"
        using True nfh by (subst sort_Search_loop.simps) (simp add: Let_def)
      have lo: "\<forall>k < ?h + 1. \<not> f k"
      proof (intro allI impI notI)
        fix k assume "k < ?h + 1" "f k"
        then have "k \<le> ?h" by simp
        with \<open>f k\<close> hn(1) mono have "f ?h" by blast
        with nfh show False by simp
      qed
      note IH = "1.IH"(1) [OF True refl nfh mono hn(3) jn lo upper]
      show ?thesis unfolding eq
      proof (intro conjI)
        show "i \<le> sort_Search_loop (?h + 1) j f"
          using IH [THEN conjunct1] h(1) by linarith
        show "sort_Search_loop (?h + 1) j f \<le> j"
          by (rule IH [THEN conjunct2, THEN conjunct1])
        show "\<forall>k < sort_Search_loop (?h + 1) j f. \<not> f k"
          by (rule IH [THEN conjunct2, THEN conjunct2, THEN conjunct1])
        show "\<forall>k. sort_Search_loop (?h + 1) j f \<le> k \<and> k < n \<longrightarrow> f k"
          by (rule IH [THEN conjunct2, THEN conjunct2, THEN conjunct2])
      qed
    qed
  qed
qed


lemma search_pos:
  fixes seq :: "64 word"
  assumes "sorted_wrt (<) (ms :: 64 word list)"
  defines "p \<equiv> sort_Search (length ms) (\<lambda>i. seq \<le> ms ! i)"
  shows "p \<le> length ms" and "\<forall>k<p. ms ! k < seq"
    and "\<forall>k. p \<le> k \<and> k < length ms \<longrightarrow> seq \<le> ms ! k"
proof -
  have mono: "\<forall>a b. a \<le> b \<and> b < length ms \<and> seq \<le> ms ! a \<longrightarrow> seq \<le> ms ! b"
  proof (intro allI impI)
    fix a b assume h: "a \<le> b \<and> b < length ms \<and> seq \<le> ms ! a"
    show "seq \<le> ms ! b"
    proof (cases "a = b")
      case True
      with h show ?thesis by simp
    next
      case False
      with h have "a < b" by simp
      with assms(1) h have "ms ! a < ms ! b" by (simp add: sorted_wrt_nth_less)
      with h show ?thesis by (meson le_less_trans less_imp_le)
    qed
  qed
  have "0 \<le> p \<and> p \<le> length ms \<and> (\<forall>k<p. \<not> seq \<le> ms ! k) \<and>
        (\<forall>k. p \<le> k \<and> k < length ms \<longrightarrow> seq \<le> ms ! k)"
    unfolding p_def sort_Search_def
    by (rule sort_Search_loop_spec [OF mono]) auto
  then show "p \<le> length ms" and "\<forall>k<p. ms ! k < seq"
    and "\<forall>k. p \<le> k \<and> k < length ms \<longrightarrow> seq \<le> ms ! k"
    by (simp_all add: not_le)
qed

lemma search_split:
  fixes seq :: "64 word"
  assumes "sorted_wrt (<) (ms :: 64 word list)"
  defines "p \<equiv> sort_Search (length ms) (\<lambda>i. seq \<le> ms ! i)"
  shows "take p ms = filter (\<lambda>x. x < seq) ms" and "drop p ms = filter (\<lambda>x. seq \<le> x) ms"
proof -
  note sp = search_pos [OF assms(1), of seq, folded p_def]
  have lo: "\<forall>x \<in> set (take p ms). x < seq"
    using sp(1,2) by (auto simp: in_set_conv_nth)
  have hi: "\<forall>x \<in> set (drop p ms). seq \<le> x"
    using sp(1,3) by (auto simp: in_set_conv_nth)
  have "filter (\<lambda>x. x < seq) ms = filter (\<lambda>x. x < seq) (take p ms @ drop p ms)" by simp
  also have "\<dots> = take p ms @ []"
    unfolding filter_append using lo hi by (simp add: filter_empty_conv not_less)
  finally show "take p ms = filter (\<lambda>x. x < seq) ms" by simp
  have "filter (\<lambda>x. seq \<le> x) ms = filter (\<lambda>x. seq \<le> x) (take p ms @ drop p ms)" by simp
  also have "\<dots> = [] @ drop p ms"
    unfolding filter_append using lo hi by (simp add: filter_empty_conv not_le)
  finally show "drop p ms = filter (\<lambda>x. seq \<le> x) ms" by simp
qed

lemma go_insert:
  assumes "p \<le> length ms"
  shows "insert_at ms p s = take p ms @ s # drop p ms"
proof -
  have a: "take (p + 1) (ms @ [0]) = take p ms @ [(ms @ [0]) ! p]"
  proof -
    have "p < length (ms @ [0])" using assms by simp
    then have "take (Suc p) (ms @ [0]) = take p (ms @ [0]) @ [(ms @ [0]) ! p]"
      by (rule take_Suc_conv_app_nth)
    moreover have "take p (ms @ [0]) = take p ms" using assms by simp
    ultimately show ?thesis by simp
  qed
  have b: "copy_go (drop (p + 1) (ms @ [0])) (drop p (ms @ [0])) = drop p ms"
    using assms by (simp add: copy_go_def min_def)
  show ?thesis
    unfolding insert_at_def Let_def a b using assms by (simp add: list_update_append)
qed

lemma go_evict:
  assumes "k \<le> length xs"
  shows "remove_front xs k (length xs - k) = drop k xs"
  using assms by (simp add: remove_front_def copy_go_def min_def)

lemma insort_filter_split:
  "sorted (ms :: 64 word list) \<Longrightarrow>
   insort seq ms = filter (\<lambda>x. x < seq) ms @ seq # filter (\<lambda>x. seq \<le> x) ms"
proof (induction ms)
  case Nil
  then show ?case by simp
next
  case (Cons x xs)
  show ?case
  proof (cases "seq \<le> x")
    case True
    with Cons.prems have "\<forall>y \<in> set (x # xs). seq \<le> y" by auto
    then have "filter (\<lambda>y. y < seq) (x # xs) = []" "filter (\<lambda>y. seq \<le> y) (x # xs) = x # xs"
      by (simp_all only: filter_empty_conv filter_id_conv not_less)
    with True show ?thesis by simp
  next
    case False
    with Cons show ?thesis by simp
  qed
qed

lemma search_insert:
  fixes seq :: "64 word"
  assumes "sorted_wrt (<) ms"
  shows "take (sort_Search (length ms) (\<lambda>i. seq \<le> ms ! i)) ms @
         seq # drop (sort_Search (length ms) (\<lambda>i. seq \<le> ms ! i)) ms = insort seq ms"
  using assms
  by (simp add: search_split insort_filter_split strict_sorted_imp_sorted)

lemma search_found_iff:
  fixes seq :: "64 word"
  assumes "sorted_wrt (<) ms"
  defines "p \<equiv> sort_Search (length ms) (\<lambda>i. seq \<le> ms ! i)"
  shows "(p < length ms \<and> ms ! p = seq) \<longleftrightarrow> seq \<in> set ms"
proof
  assume "p < length ms \<and> ms ! p = seq"
  then show "seq \<in> set ms" by (auto simp: in_set_conv_nth)
next
  note sp = search_pos [OF assms(1), of seq, folded p_def]
  assume "seq \<in> set ms"
  then obtain i where i: "i < length ms" "ms ! i = seq" by (auto simp: in_set_conv_nth)
  have "\<not> i < p" using sp(2) i by auto
  then have pi: "p \<le> i" by simp
  with i have pl: "p < length ms" by simp
  with sp(3) have "seq \<le> ms ! p" by simp
  moreover have "ms ! p \<le> ms ! i"
  proof (cases "p = i")
    case True then show ?thesis by simp
  next
    case False
    with pi have "p < i" by simp
    then have "ms ! p < ms ! i" by (rule sorted_wrt_nth_less [OF assms(1) _ i(1)])
    then show ?thesis by simp
  qed
  ultimately have "ms ! p = seq" using i by simp
  with pl show "p < length ms \<and> ms ! p = seq" by simp
qed

lemma strict_sorted_insort:
  fixes seq :: "64 word"
  assumes "sorted_wrt (<) ms" "seq \<notin> set ms"
  shows "sorted_wrt (<) (insort seq ms)"
  using assms by (simp add: strict_sorted_iff sorted_insort distinct_insort)

lemma adjust_current_zero: "adjust_current c 0 = c"
  by (simp add: adjust_current_def)

lemma AddMatch_present:
  assumes "sorted_wrt (<) (matches fi)" "seq \<in> set (matches fi)"
  shows "AddMatch fi seq = Some fi"
  using search_found_iff [OF assms(1), of seq] assms(2)
  by (simp add: AddMatch_def Let_def)

lemma AddMatch_absent:
  assumes s: "sorted_wrt (<) (matches fi)" and n: "seq \<notin> set (matches fi)"
    and c: "0 \<le> maxCap fi"
  shows "AddMatch fi seq =
           Some (fi\<lparr>matches := drop (Suc (length (matches fi)) - nat (maxCap fi))
                                    (insort seq (matches fi)),
                     current := adjust_current (current fi)
                                  (Suc (length (matches fi)) - nat (maxCap fi))\<rparr>)"
proof -
  let ?ms = "matches fi"
  let ?p = "sort_Search (length ?ms) (\<lambda>i. seq \<le> ?ms ! i)"
  let ?k = "Suc (length ?ms) - nat (maxCap fi)"
  have nf: "\<not> (?p < length ?ms \<and> ?ms ! ?p = seq)"
    using search_found_iff [OF s, of seq] n by simp
  have pl: "?p \<le> length ?ms" by (rule search_pos(1) [OF s])
  have ins: "insert_at ?ms ?p seq = insort seq ?ms"
    by (simp only: go_insert [OF pl] search_insert [OF s])
  have len: "length (insort seq ?ms) = Suc (length ?ms)" by simp
  show ?thesis
  proof (cases "maxCap fi < int (Suc (length ?ms))")
    case True
    then have k: "?k \<le> length (insort seq ?ms)" "length (insort seq ?ms) - ?k = nat (maxCap fi)"
      using c by simp_all
    have ev: "remove_front (insort seq ?ms) ?k (nat (maxCap fi)) = drop ?k (insort seq ?ms)"
      using go_evict [OF k(1)] by (simp only: k(2))
    have nn: "\<not> maxCap fi < 0" using c by simp
    show ?thesis
      unfolding AddMatch_def Let_def ins len
      by (simp only: nf True nn if_False if_True ev)
  next
    case False
    then have k0: "?k = 0" by simp
    show ?thesis
      unfolding AddMatch_def Let_def ins len k0 adjust_current_zero
      by (simp only: nf False if_False) simp
  qed
qed


lemma RemoveOldMatches_eq:
  assumes s: "sorted_wrt (<) (matches fi)"
  shows "RemoveOldMatches fi old =
           fi\<lparr>matches := filter (\<lambda>x. old \<le> x) (matches fi),
              current := adjust_current (current fi)
                           (length (filter (\<lambda>x. x < old) (matches fi)))\<rparr>"
proof -
  let ?ms = "matches fi"
  let ?p = "sort_Search (length ?ms) (\<lambda>i. old \<le> ?ms ! i)"
  have pl: "?p \<le> length ?ms" by (rule search_pos(1) [OF s])
  have tk: "take ?p ?ms = filter (\<lambda>x. x < old) ?ms"
    and dr: "drop ?p ?ms = filter (\<lambda>x. old \<le> x) ?ms"
    by (rule search_split [OF s])+
  from tk pl have lp: "length (filter (\<lambda>x. x < old) ?ms) = ?p"
    by (metis length_take min.absorb2)
  show ?thesis
  proof (cases "0 < ?p")
    case True
    show ?thesis
      unfolding RemoveOldMatches_def Let_def lp
      by (simp only: True if_True go_evict [OF pl] dr)
  next
    case False
    then have p0: "?p = 0" by simp
    from dr have "filter (\<lambda>x. old \<le> x) ?ms = ?ms" unfolding p0 by simp
    then show ?thesis
      unfolding RemoveOldMatches_def Let_def lp p0
      by (simp add: adjust_current_zero)
  qed
qed

lemma cursor_dropped:
  assumes "distinct xs" "c < length xs" "xs ! c \<notin> set (drop k xs)"
  shows "c < k"
proof (rule ccontr)
  assume "\<not> c < k"
  then have "k \<le> c" by simp
  with assms(2) have "drop k xs ! (c - k) = xs ! c" "c - k < length (drop k xs)"
    by simp_all
  then have "xs ! c \<in> set (drop k xs)" by (metis nth_mem)
  with assms(3) show False by simp
qed

lemma cursor_dropped_insort:
  fixes seq :: "64 word"
  assumes s: "sorted_wrt (<) ms" and n: "seq \<notin> set ms" and c: "c < length ms"
    and d: "ms ! c \<notin> set (drop k (insort seq ms))"
  shows "c < k"
proof -
  let ?p = "sort_Search (length ms) (\<lambda>i. seq \<le> ms ! i)"
  let ?X = "insort seq ms"
  have pl: "?p \<le> length ms" by (rule search_pos(1) [OF s])
  have X: "?X = take ?p ms @ seq # drop ?p ms" by (rule search_insert [OF s, symmetric])
  define j where "j = (if c < ?p then c else c + 1)"
  have "(take ?p ms @ seq # drop ?p ms) ! j = ms ! c"
    using pl c by (auto simp: j_def nth_append min_def)
  then have Xj: "?X ! j = ms ! c" by (simp only: X [symmetric])
  have jl: "j < length ?X" using c by (simp add: j_def)
  have "distinct ?X"
    using strict_sorted_insort [OF s n] by (simp add: strict_sorted_iff)
  from cursor_dropped [OF this jl] d Xj have "j < k" by simp
  then show ?thesis by (simp add: j_def split: if_splits)
qed

lemma adjust_current_gone: "0 \<le> c \<Longrightarrow> nat c < k \<Longrightarrow> adjust_current c k = - 1"
  by (simp add: adjust_current_def Let_def)

lemma adjust_current_bounds:
  assumes "- 1 \<le> c" "c < int n"
  shows "- 1 \<le> adjust_current c k" "adjust_current c k < int (n - k) \<or> adjust_current c k = - 1"
  using assms by (auto simp: adjust_current_def Let_def)


lemma SetMatcher_inv: "fi_inv fi \<Longrightarrow> fi_inv (SetMatcher fi m)"
  by (simp add: fi_inv_def SetMatcher_def)

lemma AddMatch_inv:
  assumes inv: "fi_inv fi"
  shows "\<exists>fi'. AddMatch fi seq = Some fi' \<and> fi_inv fi' \<and>
           (seq \<in> set (matches fi) \<longrightarrow> fi' = fi) \<and>
           (seq \<notin> set (matches fi) \<longrightarrow>
              matches fi' = drop (Suc (length (matches fi)) - nat (maxCap fi))
                                 (insort seq (matches fi))) \<and>
           (0 \<le> current fi \<and> matches fi ! nat (current fi) \<notin> set (matches fi') \<longrightarrow>
              current fi' = - 1)"
proof (cases "seq \<in> set (matches fi)")
  case True
  from inv have s: "sorted_wrt (<) (matches fi)" by (simp add: fi_inv_def)
  have "AddMatch fi seq = Some fi" by (rule AddMatch_present [OF s True])
  moreover have "0 \<le> current fi \<longrightarrow> matches fi ! nat (current fi) \<in> set (matches fi)"
    using inv by (auto simp: fi_inv_def intro!: nth_mem)
  ultimately show ?thesis using inv True by auto
next
  case False
  let ?ms = "matches fi"
  let ?k = "Suc (length ?ms) - nat (maxCap fi)"
  let ?X = "insort seq ?ms"
  let ?fi' = "fi\<lparr>matches := drop ?k ?X, current := adjust_current (current fi) ?k\<rparr>"
  from inv have s: "sorted_wrt (<) ?ms" and c: "0 \<le> maxCap fi"
    and lo: "- 1 \<le> current fi" and hi: "current fi < int (length ?ms)"
    by (simp_all add: fi_inv_def)
  have eq: "AddMatch fi seq = Some ?fi'" by (rule AddMatch_absent [OF s False c])
  have srt: "sorted_wrt (<) (drop ?k ?X)"
    using strict_sorted_insort [OF s False] by (rule sorted_wrt_drop)
  have hi': "current fi < int (length ?X)" using hi by simp
  have b1: "- 1 \<le> adjust_current (current fi) ?k"
    by (rule adjust_current_bounds(1) [OF lo hi'])
  have b2: "adjust_current (current fi) ?k < int (length (drop ?k ?X))"
    using adjust_current_bounds(2) [OF lo hi', of ?k] by auto
  have inv': "fi_inv ?fi'"
    unfolding fi_inv_def using srt b1 b2 c by simp
  have cur: "current ?fi' = - 1"
    if "0 \<le> current fi" "?ms ! nat (current fi) \<notin> set (matches ?fi')"
  proof -
    from that(1) hi have cl: "nat (current fi) < length ?ms" by simp
    from that(2) have "?ms ! nat (current fi) \<notin> set (drop ?k ?X)" by simp
    from cursor_dropped_insort [OF s False cl this]
    show ?thesis using that(1) by (simp add: adjust_current_gone)
  qed
  show ?thesis
    using eq inv' False cur by (intro exI [of _ ?fi']) simp
qed

lemma RemoveOldMatches_inv:
  assumes inv: "fi_inv fi"
  shows "fi_inv (RemoveOldMatches fi old) \<and>
         matches (RemoveOldMatches fi old) = filter (\<lambda>x. old \<le> x) (matches fi) \<and>
         (0 \<le> current fi \<and>
          matches fi ! nat (current fi) \<notin> set (matches (RemoveOldMatches fi old)) \<longrightarrow>
            current (RemoveOldMatches fi old) = - 1)"
proof -
  let ?ms = "matches fi"
  let ?p = "sort_Search (length ?ms) (\<lambda>i. old \<le> ?ms ! i)"
  from inv have s: "sorted_wrt (<) ?ms" and c: "0 \<le> maxCap fi"
    and lo: "- 1 \<le> current fi" and hi: "current fi < int (length ?ms)"
    by (simp_all add: fi_inv_def)
  have pl: "?p \<le> length ?ms" by (rule search_pos(1) [OF s])
  have tk: "take ?p ?ms = filter (\<lambda>x. x < old) ?ms"
    and dr: "drop ?p ?ms = filter (\<lambda>x. old \<le> x) ?ms"
    by (rule search_split [OF s])+
  from tk pl have lp: "length (filter (\<lambda>x. x < old) ?ms) = ?p"
    by (metis length_take min.absorb2)
  have eq: "RemoveOldMatches fi old =
              fi\<lparr>matches := drop ?p ?ms, current := adjust_current (current fi) ?p\<rparr>"
    by (simp only: RemoveOldMatches_eq [OF s] lp dr)
  have srt: "sorted_wrt (<) (drop ?p ?ms)" using s by (rule sorted_wrt_drop)
  have b1: "- 1 \<le> adjust_current (current fi) ?p"
    by (rule adjust_current_bounds(1) [OF lo hi])
  have b2: "adjust_current (current fi) ?p < int (length (drop ?p ?ms))"
    using adjust_current_bounds(2) [OF lo hi, of ?p] by auto
  have inv': "fi_inv (RemoveOldMatches fi old)"
    unfolding fi_inv_def eq using srt b1 b2 c by simp
  have cur: "current (RemoveOldMatches fi old) = - 1"
    if "0 \<le> current fi" "?ms ! nat (current fi) \<notin> set (matches (RemoveOldMatches fi old))"
  proof -
    from that(1) hi have cl: "nat (current fi) < length ?ms" by simp
    from that(2) have d: "?ms ! nat (current fi) \<notin> set (drop ?p ?ms)" by (simp add: eq)
    have "distinct ?ms" using s by (simp add: strict_sorted_iff)
    from cursor_dropped [OF this cl d]
    show ?thesis using that(1) by (simp add: eq adjust_current_gone)
  qed
  have "matches (RemoveOldMatches fi old) = filter (\<lambda>x. old \<le> x) ?ms"
    by (simp add: eq dr)
  with inv' cur show ?thesis by blast
qed

lemma Next_inv:
  assumes inv: "fi_inv fi"
  shows "\<exists>fi' v. Next fi = Some (fi', v) \<and> fi_inv fi' \<and> matches fi' = matches fi"
  using inv by (auto simp: Next_def fi_inv_def Let_def)

lemma Prev_inv:
  assumes inv: "fi_inv fi"
  shows "\<exists>fi' v. Prev fi = Some (fi', v) \<and> fi_inv fi' \<and> matches fi' = matches fi"
  using inv by (auto simp: Prev_def fi_inv_def Let_def)

lemma SetCurrentBySeq_inv:
  assumes inv: "fi_inv fi"
  shows "fi_inv (fst (SetCurrentBySeq fi seq)) \<and>
         matches (fst (SetCurrentBySeq fi seq)) = matches fi"
  using inv by (simp add: SetCurrentBySeq_def fi_inv_def Let_def)

lemma NewFindIndex_inv: "0 \<le> c \<Longrightarrow> fi_inv (NewFindIndex c)"
  by (simp add: fi_inv_def NewFindIndex_def)

text \<open>
  C9. From a state where the sequence list is strictly increasing (so duplicate-free), the
  cursor is \<open>-1\<close> or an index into the list and the capacity is not negative, every
  operation returns without panic in such a state again. \<open>AddMatch\<close> changes nothing when
  the sequence is present; otherwise the list becomes the sorted insertion of the
  sequence, minus as many of its smallest entries as exceed the capacity.
  \<open>RemoveOldMatches\<close> keeps exactly the entries not below the threshold. After either,
  a cursor whose target is no longer in the list is \<open>-1\<close>. \<open>Next\<close>, \<open>Prev\<close> and
  \<open>SetCurrentBySeq\<close> leave the list as it is.
\<close>

theorem find_index_invariant:
  assumes inv: "fi_inv fi"
  shows "fi_inv (SetMatcher fi m) \<and>
    (\<exists>fi'. AddMatch fi seq = Some fi' \<and> fi_inv fi' \<and>
           (seq \<in> set (matches fi) \<longrightarrow> fi' = fi) \<and>
           (seq \<notin> set (matches fi) \<longrightarrow>
              matches fi' = drop (Suc (length (matches fi)) - nat (maxCap fi))
                                 (insort seq (matches fi))) \<and>
           (0 \<le> current fi \<and> matches fi ! nat (current fi) \<notin> set (matches fi') \<longrightarrow>
              current fi' = - 1)) \<and>
    (fi_inv (RemoveOldMatches fi old) \<and>
     matches (RemoveOldMatches fi old) = filter (\<lambda>x. old \<le> x) (matches fi) \<and>
     (0 \<le> current fi \<and>
      matches fi ! nat (current fi) \<notin> set (matches (RemoveOldMatches fi old)) \<longrightarrow>
        current (RemoveOldMatches fi old) = - 1)) \<and>
    (\<exists>fi' v. Next fi = Some (fi', v) \<and> fi_inv fi' \<and> matches fi' = matches fi) \<and>
    (\<exists>fi' v. Prev fi = Some (fi', v) \<and> fi_inv fi' \<and> matches fi' = matches fi) \<and>
    (fi_inv (fst (SetCurrentBySeq fi seq)) \<and>
     matches (fst (SetCurrentBySeq fi seq)) = matches fi)"
  by (intro conjI SetMatcher_inv [OF inv] AddMatch_inv [OF inv]
        RemoveOldMatches_inv [OF inv, THEN conjunct1]
        RemoveOldMatches_inv [OF inv, THEN conjunct2, THEN conjunct1]
        RemoveOldMatches_inv [OF inv, THEN conjunct2, THEN conjunct2]
        Next_inv [OF inv] Prev_inv [OF inv]
        SetCurrentBySeq_inv [OF inv, THEN conjunct1]
        SetCurrentBySeq_inv [OF inv, THEN conjunct2])

theorem find_index_invariant_witness:
  "fi_inv ((NewFindIndex 3)\<lparr>matches := [10, 50, 75], current := 0\<rparr>) \<and>
   (\<exists>fi'. AddMatch ((NewFindIndex 3)\<lparr>matches := [10, 50, 75], current := 0\<rparr>) 100 = Some fi' \<and>
          fi_inv fi' \<and> matches fi' = [50, 75, 100] \<and> current fi' = - 1)"
proof -
  let ?fi = "(NewFindIndex 3)\<lparr>matches := [10, 50, 75], current := 0\<rparr>"
  have i: "fi_inv ?fi"
    by (simp add: fi_inv_def NewFindIndex_def)
  from find_index_invariant [OF i, of "matcher (NewFindIndex 3)" 100 0]
  show ?thesis using i by (auto simp: NewFindIndex_def)
qed

lemma append_all_ab:
  "append_all (NewRing 2) [mk_event ''a'' SevInfo, mk_event ''b'' SevWarn]
   = Some (\<lparr>r_cap = 2,
             r_buf = [(mk_event ''a'' SevInfo)\<lparr>Seq := 1\<rparr>, (mk_event ''b'' SevWarn)\<lparr>Seq := 2\<rparr>],
             r_head = 0, r_size = 2, r_seq = 2\<rparr>,
           [(mk_event ''a'' SevInfo)\<lparr>Seq := 1\<rparr>, (mk_event ''b'' SevWarn)\<lparr>Seq := 2\<rparr>])"
  by (simp add: NewRing_def Append_def Let_def numeral_2_eq_2)

text \<open>
  C10. Appending fewer than \<open>2^64\<close> events (the range of the \<open>uint64\<close> counter) to a new
  ring gives the \<open>N\<close>th event the sequence number \<open>N\<close>, which is never \<open>0\<close>; and \<open>0\<close> is
  what \<open>OldestSeq\<close> returns on the empty ring and what \<open>Next\<close> and \<open>Prev\<close> return on an
  index without matches.
\<close>

theorem sequence_numbers_from_one:
  assumes b: "length es < 2 ^ 64"
  shows "\<exists>r out. append_all (NewRing C) es = Some (r, out) \<and> length out = length es \<and>
     (\<forall>i < length es. out ! i = (es ! i)\<lparr>Seq := of_nat (i + 1)\<rparr> \<and>
                       unat (Seq (out ! i)) = i + 1 \<and> Seq (out ! i) \<noteq> 0) \<and>
     OldestSeq (NewRing C) = 0 \<and>
     (matches fi = [] \<longrightarrow> Next fi = Some (fi, 0) \<and> Prev fi = Some (fi, 0))"
proof -
  from append_all_holds [OF ring_holds_NewRing_any, of C es]
  obtain r out where a: "append_all (NewRing C) es = Some (r, out)"
    and l: "length out = length es"
    and st: "\<And>i. i < length es \<Longrightarrow> out ! i = (es ! i)\<lparr>Seq := of_nat (i + 1)\<rparr>"
    by auto
  have sq: "unat (Seq (out ! i)) = i + 1 \<and> Seq (out ! i) \<noteq> 0" if "i < length es" for i
  proof -
    from that b have "i + 1 < 2 ^ 64" by simp
    then have u: "unat (of_nat (i + 1) :: 64 word) = i + 1" by (rule unat_of_nat64)
    then have "(of_nat (i + 1) :: 64 word) \<noteq> 0" by (metis unat_0 add_is_0 one_neq_zero)
    with u st [OF that] show ?thesis by simp
  qed
  have "OldestSeq (NewRing C) = 0" by (simp add: OldestSeq_def NewRing_def Let_def)
  moreover have "matches fi = [] \<longrightarrow> Next fi = Some (fi, 0) \<and> Prev fi = Some (fi, 0)"
    by (simp add: Next_def Prev_def)
  ultimately show ?thesis using a l st sq by blast
qed

theorem sequence_numbers_from_one_witness:
  "length [mk_event ''a'' SevInfo, mk_event ''b'' SevWarn] < 2 ^ 64 \<and>
   (\<exists>r out. append_all (NewRing 2) [mk_event ''a'' SevInfo, mk_event ''b'' SevWarn] = Some (r, out) \<and>
            map Seq out = [1, 2]) \<and>
   Next (NewFindIndex 5) = Some (NewFindIndex 5, 0)"
proof -
  let ?es = "[mk_event ''a'' SevInfo, mk_event ''b'' SevWarn]"
  have b: "length ?es < 2 ^ 64" by simp
  from sequence_numbers_from_one [OF b, of 2 "NewFindIndex 5"]
  show ?thesis
    unfolding append_all_ab
    by (simp add: NewFindIndex_def)
qed

end
